theory Spec2Isabelle
  imports Complex_Main "HOL-Library.Multiset"
begin

section \<open>The satellite-centric MST protocol of stardustGo\<close>

text \<open>
  A shallow embedding of \<^verbatim>\<open>internal/links/isl_satellite_mst.go\<close>. The Go code works on
  pointers to satellites and links; the embedding names each object by a number (its
  identity) and keeps what the protocol reads from the objects in a \<open>world\<close> record and
  the one thing it writes to them, the established flag of a link, in a separate store
  that every mutating operation returns updated. The mutex is not modelled: every
  operation is one atomic transition of the protocol state.
\<close>

subsection \<open>Data model\<close>

type_synonym sat = nat \<comment> \<open>identity of a non-nil \<^verbatim>\<open>*satmod.Satellite\<close>\<close>
type_synonym isl = nat \<comment> \<open>identity of a non-nil \<^verbatim>\<open>*linkmod.IslLink\<close>\<close>

text \<open>The dynamic type of a \<^verbatim>\<open>types.INode\<close> and of a \<^verbatim>\<open>types.ILink\<close> value.\<close>

datatype inode = Satellite sat | ForeignNode nat

datatype ilink = IslLink isl | ForeignLink nat

type_synonym vector = "real \<times> real \<times> real"

text \<open>
  Modelled from the spec: \<^verbatim>\<open>types.Vector.Equals\<close>, of the package \<^verbatim>\<open>pkg/types\<close>, which
  this development does not have. The spec describes the comparison of the cached
  position as exact equality, with no tolerance. Coordinates and distances are floating
  point numbers in the code and real numbers here: NaN is left out.
\<close>

definition Equals :: "vector \<Rightarrow> vector \<Rightarrow> bool" where
  "Equals a b = (a = b)"

text \<open>
  What \<^verbatim>\<open>newSat.ISLProtocol\<close> can be: a nil interface, the protocol that is running
  \<^verbatim>\<open>UpdateLinks\<close> (whose \<^verbatim>\<open>Links()\<close> would wait for the mutex the caller holds), or
  another protocol, given by the list its \<^verbatim>\<open>Links()\<close> returns.
\<close>

datatype proto_ref = NilProtocol | ThisProtocol | OtherProtocol "ilink list"

text \<open>
  What the protocol reads and other packages define is a parameter of the model: the two
  endpoints and the distance of a link (\<^verbatim>\<open>linktypes.IslLink\<close>), the position and the
  protocol of a satellite (\<^verbatim>\<open>node.Satellite\<close>) and the constant
  \<^verbatim>\<open>configs.MaxISLDistance\<close>. None of them changes during one call.
\<close>

record world =
  Node1 :: "isl \<Rightarrow> inode"
  Node2 :: "isl \<Rightarrow> inode"
  Distance :: "isl \<Rightarrow> real"
  PositionVector :: "sat \<Rightarrow> vector"
  ISLProtocol :: "sat \<Rightarrow> proto_ref"
  MaxISLDistance :: real

text \<open>The established flag of every link, written by \<^verbatim>\<open>SetEstablished\<close>.\<close>

type_synonym flags = "isl \<Rightarrow> bool"

text \<open>
  How a call can fail: with the error \<^verbatim>\<open>errors.New(s)\<close>, with the panic of a method call
  through a nil pointer or interface, or by never returning.
\<close>

datatype error = ErrorsNew string | NilDereference | Deadlock

text \<open>
  The struct \<^verbatim>\<open>IslSatelliteCentricMstProtocol\<close>. The map \<^verbatim>\<open>visited\<close> only ever stores
  \<^verbatim>\<open>true\<close>, so it is the set of its keys; \<^verbatim>\<open>readyCh\<close> is a channel of capacity one, so it
  is the flag "a signal is pending".
\<close>

record protocol =
  links :: "isl list"
  established :: "isl list"
  satellite :: "sat option"
  satellites :: "sat list"
  position :: vector
  visited :: "sat set"
  pq :: "(isl \<times> real) list"
  readyCh :: bool

subsection \<open>The priority queue\<close>

text \<open>
  Modelled from the spec: \<^verbatim>\<open>linkmod.LinkPriorityQueue\<close>, of the package \<^verbatim>\<open>linktypes\<close>, which
  this development does not have. The spec: \<^verbatim>\<open>Enqueue\<close> inserts in ascending order of priority, equal priorities leave in
  the order they came; \<^verbatim>\<open>Dequeue\<close> removes and returns the minimum, or nil on an empty
  queue; \<^verbatim>\<open>Clear\<close> empties; \<^verbatim>\<open>Len\<close> is the size.
\<close>

fun Enqueue :: "(isl \<times> real) list \<Rightarrow> isl \<Rightarrow> real \<Rightarrow> (isl \<times> real) list" where
  "Enqueue [] l d = [(l, d)]"
| "Enqueue ((l', d') # q) l d =
     (if d < d' then (l, d) # (l', d') # q else (l', d') # Enqueue q l d)"

definition Dequeue :: "(isl \<times> real) list \<Rightarrow> isl option \<times> (isl \<times> real) list" where
  "Dequeue q = (case q of [] \<Rightarrow> (None, []) | (l, d) # q' \<Rightarrow> (Some l, q'))"

definition Clear :: "(isl \<times> real) list \<Rightarrow> (isl \<times> real) list" where
  "Clear q = []"

definition Len :: "(isl \<times> real) list \<Rightarrow> nat" where
  "Len q = length q"

subsection \<open>Construction, mounting and the link operations\<close>

definition NewIslSatelliteCentricMstProtocol :: protocol where
  "NewIslSatelliteCentricMstProtocol =
     \<lparr>links = [], established = [], satellite = None, satellites = [],
      position = (0, 0, 0), visited = {}, pq = [], readyCh = False\<rparr>"

definition Mount :: "protocol \<Rightarrow> inode \<Rightarrow> protocol" where
  "Mount p sat =
     (if satellite p = None then
        (case sat of Satellite s \<Rightarrow> p\<lparr>satellite := Some s\<rparr> | ForeignNode k \<Rightarrow> p)
      else p)"

definition AddLink :: "protocol \<Rightarrow> ilink \<Rightarrow> protocol" where
  "AddLink p link =
     (case link of IslLink il \<Rightarrow> p\<lparr>links := links p @ [il]\<rparr> | ForeignLink k \<Rightarrow> p)"

definition ConnectSatellite :: "protocol \<Rightarrow> inode \<Rightarrow> error option \<times> protocol" where
  "ConnectSatellite p s = (Some (ErrorsNew ''ConnectSatellite not implemented''), p)"

definition ConnectLink :: "protocol \<Rightarrow> ilink \<Rightarrow> error option \<times> protocol" where
  "ConnectLink p link =
     (None, case link of IslLink il \<Rightarrow> p\<lparr>established := established p @ [il]\<rparr>
                       | ForeignLink k \<Rightarrow> p)"

definition DisconnectSatellite :: "protocol \<Rightarrow> inode \<Rightarrow> error option \<times> protocol" where
  "DisconnectSatellite p s = (Some (ErrorsNew ''DisconnectSatellite not implemented''), p)"

text \<open>The index at which the loop of \<^verbatim>\<open>DisconnectLink\<close> breaks, counted from \<open>i\<close>.\<close>

fun first_index :: "isl list \<Rightarrow> isl \<Rightarrow> nat \<Rightarrow> nat option" where
  "first_index [] x i = None"
| "first_index (l # ls) x i = (if l = x then Some i else first_index ls x (Suc i))"

definition DisconnectLink :: "protocol \<Rightarrow> ilink \<Rightarrow> error option \<times> protocol" where
  "DisconnectLink p link =
     (None, case link of
              IslLink il \<Rightarrow>
                (case first_index (established p) il 0 of
                   Some i \<Rightarrow> p\<lparr>established := take i (established p) @ drop (i + 1) (established p)\<rparr>
                 | None \<Rightarrow> p)
            | ForeignLink k \<Rightarrow> p)"

subsection \<open>UpdateLinks\<close>

text \<open>\<^verbatim>\<open>s, _ := n.(*satmod.Satellite)\<close>: nil when the node is not a satellite.\<close>

definition as_satellite :: "inode \<Rightarrow> sat option" where
  "as_satellite n = (case n of Satellite s \<Rightarrow> Some s | ForeignNode k \<Rightarrow> None)"

text \<open>\<^verbatim>\<open>p.visited[s]\<close>; the nil key is never stored, so it reads false.\<close>

definition is_visited :: "sat set \<Rightarrow> sat option \<Rightarrow> bool" where
  "is_visited vis s = (case s of None \<Rightarrow> False | Some x \<Rightarrow> x \<in> vis)"

text \<open>
  The keys of \<^verbatim>\<open>satMap\<close>. Go enumerates them in no fixed order; the code reads only the
  length of \<^verbatim>\<open>p.satellites\<close>.
\<close>

definition map_insert :: "sat list \<Rightarrow> inode \<Rightarrow> sat list" where
  "map_insert m n =
     (case n of Satellite s \<Rightarrow> (if s \<in> set m then m else m @ [s]) | ForeignNode k \<Rightarrow> m)"

fun reachable_satellites :: "world \<Rightarrow> isl list \<Rightarrow> sat list \<Rightarrow> sat list" where
  "reachable_satellites w [] m = m"
| "reachable_satellites w (link # ls) m =
     reachable_satellites w ls (map_insert (map_insert m (Node1 w link)) (Node2 w link))"

text \<open>Lines 138 to 142: the candidate links within range go to the queue.\<close>

fun seed_queue :: "world \<Rightarrow> isl list \<Rightarrow> (isl \<times> real) list \<Rightarrow> (isl \<times> real) list" where
  "seed_queue w [] q = q"
| "seed_queue w (l # ls) q =
     seed_queue w ls (if Distance w l \<le> MaxISLDistance w then Enqueue q l (Distance w l) else q)"

text \<open>Lines 168 to 176: the links of the new satellite's own protocol go to the queue.\<close>

fun enqueue_frontier ::
  "world \<Rightarrow> sat set \<Rightarrow> ilink list \<Rightarrow> (isl \<times> real) list \<Rightarrow> (isl \<times> real) list" where
  "enqueue_frontier w vis [] q = q"
| "enqueue_frontier w vis (IslLink il # ls) q =
     enqueue_frontier w vis ls
       (if Distance w il \<le> MaxISLDistance w
           \<and> \<not> (is_visited vis (as_satellite (Node1 w il))
                \<and> is_visited vis (as_satellite (Node2 w il)))
        then Enqueue q il (Distance w il) else q)"
| "enqueue_frontier w vis (ForeignLink k # ls) q = enqueue_frontier w vis ls q"

text \<open>
  The state of the loop of lines 148 to 180: the tree so far, the visited set and the
  queue. One pass through its body either goes on with a new state, leaves the loop, or
  stops the whole call (a nil dereference panics; a call into the locked protocol never
  returns).
\<close>

type_synonym lstate = "isl list \<times> sat set \<times> (isl \<times> real) list"

datatype pass = Continue lstate | Break lstate | Fault error lstate

fun mst_step :: "world \<Rightarrow> nat \<Rightarrow> lstate \<Rightarrow> pass" where
  "mst_step w n (mst, vis, q) =
     (if int (length mst) < int n - 1 \<and> 0 < Len q then
        (case Dequeue q of
           (None, q') \<Rightarrow> Break (mst, vis, q')
         | (Some link, q') \<Rightarrow>
             (let s1 = as_satellite (Node1 w link);
                  s2 = as_satellite (Node2 w link)
              in if is_visited vis s1 \<and> is_visited vis s2 then Continue (mst, vis, q')
                 else
                   (case (if \<not> is_visited vis s1 then s1 else s2) of
                      None \<Rightarrow> Fault NilDereference (mst, vis, q')
                    | Some newSat \<Rightarrow>
                        (case ISLProtocol w newSat of
                           NilProtocol \<Rightarrow> Fault NilDereference (mst, vis, q')
                         | ThisProtocol \<Rightarrow> Fault Deadlock (mst, vis, q')
                         | OtherProtocol ls \<Rightarrow>
                             Continue (mst @ [link], insert newSat vis,
                                       enqueue_frontier w vis ls q')))))
      else Break (mst, vis, q))"

definition loop_measure :: "nat \<Rightarrow> lstate \<Rightarrow> nat \<times> nat" where
  "loop_measure n st =
     (case st of (mst, vis, q) \<Rightarrow> (nat (int n - 1 - int (length mst)), length q))"

function mst_loop :: "world \<Rightarrow> nat \<Rightarrow> lstate \<Rightarrow> error option \<times> lstate" where
  "mst_loop w n st =
     (case mst_step w n st of
        Continue st' \<Rightarrow> mst_loop w n st'
      | Break st' \<Rightarrow> (None, st')
      | Fault e st' \<Rightarrow> (Some e, st'))"
  by pat_completeness auto
termination
proof (relation "inv_image (less_than <*lex*> less_than) (\<lambda>(w, n, st). loop_measure n st)")
  show "wf (inv_image (less_than <*lex*> less_than) (\<lambda>(w, n, st). loop_measure n st))"
    by (intro wf_inv_image wf_lex_prod wf_less_than)
next
  fix w n st st'
  assume step: "mst_step w n st = Continue st'"
  obtain mst vis q where st: "st = (mst, vis, q)" by (cases st) auto
  from step have "(loop_measure n st', loop_measure n st) \<in> less_than <*lex*> less_than"
    unfolding st
    by (cases q)
       (auto simp: loop_measure_def Dequeue_def Len_def Let_def
             split: if_splits option.splits proto_ref.splits)
  then show "((w, n, st'), (w, n, st))
      \<in> inv_image (less_than <*lex*> less_than) (\<lambda>(w, n, st). loop_measure n st)"
    by simp
qed

declare mst_loop.simps [simp del]

text \<open>Lines 183 to 192: the flags of the new tree are set, those of dropped links cleared.\<close>

fun mark_tree :: "isl list \<Rightarrow> flags \<times> isl set \<Rightarrow> flags \<times> isl set" where
  "mark_tree [] (fl, estSet) = (fl, estSet)"
| "mark_tree (l # ls) (fl, estSet) = mark_tree ls (fl(l := True), insert l estSet)"

fun clear_dropped :: "isl list \<Rightarrow> isl set \<Rightarrow> flags \<Rightarrow> flags" where
  "clear_dropped [] estSet fl = fl"
| "clear_dropped (l # ls) estSet fl =
     clear_dropped ls estSet (if l \<notin> estSet then fl(l := False) else fl)"

text \<open>The state in which the loop starts: lines 116 to 145.\<close>

definition prepare :: "world \<Rightarrow> sat \<Rightarrow> protocol \<Rightarrow> protocol" where
  "prepare w sat p =
     (let p1 = p\<lparr>position := PositionVector w sat\<rparr>;
          p2 = p1\<lparr>satellites := reachable_satellites w (links p1) []\<rparr>;
          p3 = p2\<lparr>visited := {}, pq := Clear (pq p2)\<rparr>;
          p4 = p3\<lparr>pq := seed_queue w (links p3) (pq p3)\<rparr>
      in p4\<lparr>visited := insert sat (visited p4)\<rparr>)"

definition UpdateLinks ::
  "world \<Rightarrow> flags \<Rightarrow> protocol \<Rightarrow> (error + ilink list) \<times> flags \<times> protocol" where
  "UpdateLinks w fl p =
     (case satellite p of
        None \<Rightarrow> (Inl (ErrorsNew ''satellite not mounted''), fl, p)
      | Some sat \<Rightarrow>
          if Equals (position p) (PositionVector w sat)
          then (Inr (map IslLink (established p)), fl, p\<lparr>readyCh := False\<rparr>)
          else
            (let p0 = prepare w sat p
             in case mst_loop w (length (satellites p0)) ([], visited p0, pq p0) of
                  (Some e, (mst, vis, q)) \<Rightarrow> (Inl e, fl, p0\<lparr>visited := vis, pq := q\<rparr>)
                | (None, (mst, vis, q)) \<Rightarrow>
                    (case mark_tree mst (fl, {}) of
                       (fl1, estSet) \<Rightarrow>
                         (Inr (map IslLink mst),
                          clear_dropped (established p) estSet fl1,
                          p0\<lparr>visited := vis, pq := q, established := mst,
                             readyCh := True\<rparr>))))"

definition Links :: "protocol \<Rightarrow> ilink list" where
  "Links p = map IslLink (links p)"

definition Established :: "protocol \<Rightarrow> ilink list" where
  "Established p = map IslLink (established p)"

text \<open>
  The states in which the loop evaluates its condition when started in \<open>st0\<close>: the start
  state and the state every pass that goes on leaves.
\<close>

inductive loop_reaches :: "world \<Rightarrow> nat \<Rightarrow> lstate \<Rightarrow> lstate \<Rightarrow> bool" for w n st0 where
  start: "loop_reaches w n st0 st0"
| pass: "loop_reaches w n st0 st \<Longrightarrow> mst_step w n st = Continue st'
         \<Longrightarrow> loop_reaches w n st0 st'"

subsection \<open>Cycles in a set of links\<close>

text \<open>
  A list of links is a cycle when its links are pairwise different and, starting at the
  first endpoint of the first link and crossing the links one after the other, one is
  back at the start.
\<close>

definition other_end :: "world \<Rightarrow> isl \<Rightarrow> inode \<Rightarrow> inode option" where
  "other_end w l n =
     (if Node1 w l = n then Some (Node2 w l)
      else if Node2 w l = n then Some (Node1 w l) else None)"

fun walk :: "world \<Rightarrow> inode \<Rightarrow> isl list \<Rightarrow> inode option" where
  "walk w n [] = Some n"
| "walk w n (l # ls) = (case other_end w l n of None \<Rightarrow> None | Some m \<Rightarrow> walk w m ls)"

definition is_cycle :: "world \<Rightarrow> isl list \<Rightarrow> bool" where
  "is_cycle w ls =
     (case ls of [] \<Rightarrow> False
      | l # ls' \<Rightarrow> distinct ls \<and> walk w (Node1 w l) ls = Some (Node1 w l))"

subsection \<open>Concrete constellations\<close>

text \<open>
  The example of the specification: satellites A, B, C (0, 1, 2) and the links
  A-B (link 0, distance 10), A-C (link 1, distance 50), B-C (link 2, distance 5), the
  maximum range 100. The protocol of A holds all three links; the protocols of B and C
  hold the links that end at them. A is at the origin and the cached position is another
  one.
\<close>

definition scenario_world :: world where
  "scenario_world =
     \<lparr>Node1 = (\<lambda>l. if l = 0 then Satellite 0 else if l = 1 then Satellite 0 else Satellite 1),
      Node2 = (\<lambda>l. if l = 0 then Satellite 1 else if l = 1 then Satellite 2 else Satellite 2),
      Distance = (\<lambda>l. if l = 0 then 10 else if l = 1 then 50 else 5),
      PositionVector = (\<lambda>s. (0, 0, 0)),
      ISLProtocol = (\<lambda>s. if s = 0 then ThisProtocol
                          else if s = 1 then OtherProtocol [IslLink 0, IslLink 2]
                          else OtherProtocol [IslLink 1, IslLink 2]),
      MaxISLDistance = 100\<rparr>"

definition scenario_protocol :: protocol where
  "scenario_protocol =
     (AddLink (AddLink (AddLink (Mount NewIslSatelliteCentricMstProtocol (Satellite 0))
        (IslLink 0)) (IslLink 1)) (IslLink 2))\<lparr>position := (1, 0, 0)\<rparr>"

text \<open>
  Four satellites A, B, C, D (0 to 3) and the links A-B (link 0, distance 10),
  B-C (link 1, distance 1), C-D (link 2, distance 2), B-D (link 3, distance 3), all
  within the maximum range 100 and all candidates of the protocol of A, which is new and
  mounted on A. The protocols of the other satellites hold no links.
\<close>

definition cycle_world :: world where
  "cycle_world =
     \<lparr>Node1 = (\<lambda>l. if l = 0 then Satellite 0 else if l = 1 then Satellite 1
                    else if l = 2 then Satellite 2 else Satellite 1),
      Node2 = (\<lambda>l. if l = 0 then Satellite 1 else if l = 1 then Satellite 2
                    else if l = 2 then Satellite 3 else Satellite 3),
      Distance = (\<lambda>l. if l = 0 then 10 else if l = 1 then 1 else if l = 2 then 2 else 3),
      PositionVector = (\<lambda>s. (7000, 0, 0)),
      ISLProtocol = (\<lambda>s. if s = 0 then ThisProtocol else OtherProtocol []),
      MaxISLDistance = 100\<rparr>"

definition cycle_protocol :: protocol where
  "cycle_protocol =
     AddLink (AddLink (AddLink (AddLink (Mount NewIslSatelliteCentricMstProtocol (Satellite 0))
       (IslLink 0)) (IslLink 1)) (IslLink 2)) (IslLink 3)"

text \<open>
  Satellites A, B, C (0, 1, 2) and the links A-B (link 0, distance 10), A-C (link 1,
  distance 500), B-C (link 2, distance 5), the maximum range 100. The protocol of A is new,
  mounted on A and holds the two links that end at A; the protocols of B and C hold the
  links that end at them.
\<close>

definition relay_world :: world where
  "relay_world =
     \<lparr>Node1 = (\<lambda>l. if l = 0 then Satellite 0 else if l = 1 then Satellite 0 else Satellite 1),
      Node2 = (\<lambda>l. if l = 0 then Satellite 1 else if l = 1 then Satellite 2 else Satellite 2),
      Distance = (\<lambda>l. if l = 0 then 10 else if l = 1 then 500 else 5),
      PositionVector = (\<lambda>s. (7000, 0, 0)),
      ISLProtocol = (\<lambda>s. if s = 0 then ThisProtocol
                          else if s = 1 then OtherProtocol [IslLink 0, IslLink 2]
                          else OtherProtocol [IslLink 1, IslLink 2]),
      MaxISLDistance = 100\<rparr>"

definition relay_protocol :: protocol where
  "relay_protocol =
     AddLink (AddLink (Mount NewIslSatelliteCentricMstProtocol (Satellite 0))
       (IslLink 0)) (IslLink 1)"

text \<open>
  The same protocol after \<^verbatim>\<open>ConnectLink\<close> of the link A-C, whose established flag is then
  set while the flags of the other links are not.
\<close>

definition relay_connected :: protocol where
  "relay_connected = snd (ConnectLink relay_protocol (IslLink 1))"

subsection \<open>Invariants of the loop\<close>

text \<open>
  A link is known to the recomputation when it is a candidate of the protocol or is in
  the list that \<^verbatim>\<open>Links()\<close> of the protocol of a visited satellite other than the owner
  returns. The loop keeps: the owner is visited and every link of the tree and of the
  queue is known; and: every link of the tree and of the queue is within range.
\<close>

definition known_link :: "world \<Rightarrow> isl list \<Rightarrow> sat \<Rightarrow> sat set \<Rightarrow> isl \<Rightarrow> bool" where
  "known_link w ls sat vis l =
     (l \<in> set ls
      \<or> (\<exists>s \<in> vis - {sat}. \<exists>t. ISLProtocol w s = OtherProtocol t \<and> IslLink l \<in> set t))"

definition links_known :: "world \<Rightarrow> isl list \<Rightarrow> sat \<Rightarrow> lstate \<Rightarrow> bool" where
  "links_known w ls sat st =
     (case st of (mst, vis, q) \<Rightarrow>
        sat \<in> vis \<and> (\<forall>l \<in> set mst \<union> fst ` set q. known_link w ls sat vis l))"

definition links_in_range :: "world \<Rightarrow> lstate \<Rightarrow> bool" where
  "links_in_range w st =
     (case st of (mst, vis, q) \<Rightarrow>
        \<forall>l \<in> set mst \<union> fst ` set q. Distance w l \<le> MaxISLDistance w)"

text \<open>
  In the example of the specification: A and B are visited and the link A-B is not in
  the tree.
\<close>

definition AB_closed :: "lstate \<Rightarrow> bool" where
  "AB_closed st = (case st of (mst, vis, q) \<Rightarrow> 0 \<in> vis \<and> 1 \<in> vis \<and> 0 \<notin> set mst)"

section \<open>Properties\<close>

subsection \<open>Helper lemmas\<close>

lemma first_index_remove1:
  "first_index xs x i = Some j \<Longrightarrow> i \<le> j \<and> take (j - i) xs @ drop (Suc (j - i)) xs = remove1 x xs"
proof (induction xs arbitrary: i)
  case Nil
  then show ?case by simp
next
  case (Cons a xs)
  show ?case
  proof (cases "a = x")
    case True
    with Cons.prems show ?thesis by simp
  next
    case False
    with Cons.prems have f: "first_index xs x (Suc i) = Some j" by simp
    from Cons.IH [OF f] have le: "Suc i \<le> j"
      and eq: "take (j - Suc i) xs @ drop (Suc (j - Suc i)) xs = remove1 x xs" by auto
    from le have "j - i = Suc (j - Suc i)" by arith
    with False eq le show ?thesis by simp
  qed
qed

lemma first_index_None: "first_index xs x i = None \<Longrightarrow> x \<notin> set xs"
  by (induction xs arbitrary: i) (auto split: if_splits)

lemma DisconnectLink_remove1:
  "snd (DisconnectLink p (IslLink l)) = p\<lparr>established := remove1 l (established p)\<rparr>"
proof (cases "first_index (established p) l 0")
  case None
  then have "l \<notin> set (established p)" by (rule first_index_None)
  then have "remove1 l (established p) = established p" by (simp add: remove1_idem)
  with None show ?thesis by (simp add: DisconnectLink_def)
next
  case (Some j)
  from first_index_remove1 [OF Some] show ?thesis
    using Some by (simp add: DisconnectLink_def)
qed

lemma set_Enqueue: "set (Enqueue q l d) = insert (l, d) (set q)"
  by (induction q l d rule: Enqueue.induct) auto

lemma set_seed_queue:
  "set (seed_queue w ls q)
     = set q \<union> {(l, Distance w l) | l. l \<in> set ls \<and> Distance w l \<le> MaxISLDistance w}"
  by (induction ls arbitrary: q) (auto simp: set_Enqueue)

lemma set_enqueue_frontier:
  "set (enqueue_frontier w vis ls q)
     \<subseteq> set q \<union> {(l, Distance w l) | l. IslLink l \<in> set ls \<and> Distance w l \<le> MaxISLDistance w}"
proof (induction w vis ls q rule: enqueue_frontier.induct)
  case (1 w vis q)
  then show ?case by simp
next
  case (2 w vis il ls q)
  then show ?case by (auto simp: set_Enqueue split: if_splits)
next
  case (3 w vis k ls q)
  then show ?case by auto
qed

lemma mark_tree_eq:
  "mark_tree ls (fl, es) = ((\<lambda>l. l \<in> set ls \<or> fl l), es \<union> set ls)"
  by (induction ls arbitrary: fl es) (auto simp: fun_eq_iff)

lemma clear_dropped_eq:
  "clear_dropped xs es fl = (\<lambda>l. if l \<in> set xs \<and> l \<notin> es then False else fl l)"
  by (induction xs arbitrary: fl) (auto simp: fun_eq_iff)

text \<open>What one pass of the loop does, case by case.\<close>

lemma mst_step_Continue_cases:
  assumes "mst_step w n (mst, vis, q) = Continue (mst', vis', q')"
  obtains (discard) link d where "q = (link, d) # q'" "mst' = mst" "vis' = vis"
    | (extend) link d newSat ls where "q = (link, d) # tl q" "mst' = mst @ [link]"
      "vis' = insert newSat vis" "newSat \<notin> vis" "ISLProtocol w newSat = OtherProtocol ls"
      "q' = enqueue_frontier w vis ls (tl q)"
  using assms
  by (cases q)
     (auto simp: Dequeue_def Len_def Let_def is_visited_def
           split: if_splits option.splits proto_ref.splits)

lemma mst_step_Break_cases:
  assumes "mst_step w n (mst, vis, q) = Break st'"
  shows "st' = (mst, vis, q)"
  using assms
  by (cases q)
     (auto simp: Dequeue_def Len_def Let_def
           split: if_splits option.splits proto_ref.splits)

lemma mst_step_Fault_cases:
  assumes "mst_step w n (mst, vis, q) = Fault e st'"
  shows "st' = (mst, vis, tl q) \<and> q \<noteq> []"
  using assms
  by (cases q)
     (auto simp: Dequeue_def Len_def Let_def
           split: if_splits option.splits proto_ref.splits)

text \<open>A property that every pass keeps holds when the loop is left.\<close>

lemma mst_loop_invariant:
  assumes "mst_loop w n st = (e, st')"
    and "I st"
    and "\<And>s s'. I s \<Longrightarrow> mst_step w n s = Continue s' \<Longrightarrow> I s'"
    and "\<And>s x s'. I s \<Longrightarrow> mst_step w n s = Fault x s' \<Longrightarrow> I s'"
  shows "I st'"
  using assms
proof (induction w n st rule: mst_loop.induct)
  case (1 w n st)
  obtain mst vis q where st: "st = (mst, vis, q)" by (cases st) auto
  show ?case
  proof (cases "mst_step w n st")
    case (Continue s')
    with "1.prems"(1) have run: "mst_loop w n s' = (e, st')"
      by (simp add: mst_loop.simps [of w n st])
    have "I s'" using "1.prems"(2,3) Continue by blast
    with "1.IH" [OF Continue run] "1.prems"(3,4) show ?thesis by blast
  next
    case (Break s')
    with "1.prems"(1) have "st' = s'" by (simp add: mst_loop.simps [of w n st])
    moreover from Break have "s' = st" unfolding st by (rule mst_step_Break_cases)
    ultimately show ?thesis using "1.prems"(2) by simp
  next
    case (Fault x s')
    with "1.prems"(1) have "st' = s'" by (simp add: mst_loop.simps [of w n st])
    with "1.prems"(2,4) Fault show ?thesis by blast
  qed
qed

lemma loop_reaches_invariant:
  assumes "loop_reaches w n st0 st"
    and "I st0"
    and "\<And>s s'. I s \<Longrightarrow> mst_step w n s = Continue s' \<Longrightarrow> I s'"
  shows "I st"
  using assms by (induction rule: loop_reaches.induct) blast+

text \<open>The state that \<open>prepare\<close> leaves.\<close>

lemma prepare_fields:
  "links (prepare w sat p) = links p"
  "established (prepare w sat p) = established p"
  "satellite (prepare w sat p) = satellite p"
  "position (prepare w sat p) = PositionVector w sat"
  "visited (prepare w sat p) = {sat}"
  "pq (prepare w sat p) = seed_queue w (links p) []"
  by (simp_all add: prepare_def Let_def Clear_def)

text \<open>A call that misses the cache and returns a result went through the loop.\<close>

lemma UpdateLinks_miss:
  assumes "satellite p = Some sat"
    and "\<not> Equals (position p) (PositionVector w sat)"
    and "UpdateLinks w fl p = (Inr r, fl', p')"
  obtains mst vis q where
    "mst_loop w (length (satellites (prepare w sat p))) ([], {sat}, seed_queue w (links p) [])
       = (None, mst, vis, q)"
    "r = map IslLink mst"
    "fl' = clear_dropped (established p) (set mst) (\<lambda>l. l \<in> set mst \<or> fl l)"
    "p' = (prepare w sat p)\<lparr>visited := vis, pq := q, established := mst, readyCh := True\<rparr>"
  using assms
  by (auto simp: UpdateLinks_def Let_def prepare_fields mark_tree_eq
           split: prod.splits option.splits)

text \<open>A call that misses the cache and faults leaves the established links alone.\<close>

lemma UpdateLinks_miss_any:
  assumes "satellite p = Some sat"
    and "\<not> Equals (position p) (PositionVector w sat)"
    and "UpdateLinks w fl p = (r, fl', p')"
  obtains e mst vis q where
    "mst_loop w (length (satellites (prepare w sat p))) ([], {sat}, seed_queue w (links p) [])
       = (e, mst, vis, q)"
    "pq p' = q" "visited p' = vis"
  using assms
  by (auto simp: UpdateLinks_def Let_def prepare_fields mark_tree_eq
           split: prod.splits option.splits)

lemma result_triple: "fst x = a \<Longrightarrow> x = (a, fst (snd x), snd (snd x))"
  by (cases x) auto

text \<open>Evaluation of a call on a concrete constellation.\<close>

lemmas run_defs =
  UpdateLinks_def prepare_def NewIslSatelliteCentricMstProtocol_def Mount_def AddLink_def
  ConnectLink_def Equals_def map_insert_def Clear_def Len_def Dequeue_def as_satellite_def
  is_visited_def mst_loop.simps Let_def

lemma relay_run:
  "fst (UpdateLinks relay_world fl relay_protocol) = Inr [IslLink 0, IslLink 2]"
  "established (snd (snd (UpdateLinks relay_world fl relay_protocol))) = [0, 2]"
  "pq (snd (snd (UpdateLinks relay_world fl relay_protocol))) = [(2, 5), (0, 10)]"
  by (simp_all add: run_defs relay_world_def relay_protocol_def)

lemma relay_miss:
  "satellite relay_protocol = Some 0"
  "\<not> Equals (position relay_protocol) (PositionVector relay_world 0)"
  "links relay_protocol = [0, 1]"
  by (simp_all add: run_defs relay_world_def relay_protocol_def)

subsection \<open>The link operations\<close>

text \<open>
  Claim C6. \<^verbatim>\<open>ConnectLink(L)\<close> followed at once by \<^verbatim>\<open>DisconnectLink(L)\<close>, for a link
  \<open>L\<close> of the protocol's own link type, returns no error and leaves the established
  links equal, as a set, to what they were before \<^verbatim>\<open>ConnectLink\<close>. The number of times
  each link occurs is kept as well; the order is not, when \<open>L\<close> was already established.
\<close>

theorem ConnectLink_DisconnectLink_roundtrip:
  "fst (ConnectLink p (IslLink l)) = None
   \<and> fst (DisconnectLink (snd (ConnectLink p (IslLink l))) (IslLink l)) = None
   \<and> set (established (snd (DisconnectLink (snd (ConnectLink p (IslLink l))) (IslLink l))))
       = set (established p)
   \<and> mset (established (snd (DisconnectLink (snd (ConnectLink p (IslLink l))) (IslLink l))))
       = mset (established p)"
proof -
  let ?p1 = "snd (ConnectLink p (IslLink l))"
  have e1: "established ?p1 = established p @ [l]" by (simp add: ConnectLink_def)
  have e2: "established (snd (DisconnectLink ?p1 (IslLink l))) = remove1 l (established p @ [l])"
    by (simp add: DisconnectLink_remove1 e1)
  have m: "mset (remove1 l (established p @ [l])) = mset (established p)" by simp
  then have "set_mset (mset (remove1 l (established p @ [l]))) = set_mset (mset (established p))"
    by (rule arg_cong)
  then have s: "set (remove1 l (established p @ [l])) = set (established p)"
    by (simp only: set_mset_mset)
  have f1: "fst (ConnectLink p (IslLink l)) = None" by (simp add: ConnectLink_def)
  have f2: "fst (DisconnectLink ?p1 (IslLink l)) = None" by (simp add: DisconnectLink_def)
  show ?thesis
    by (simp only: e2 f1 f2 m s)
qed

text \<open>
  Claim C9. \<^verbatim>\<open>DisconnectLink\<close> with a link that is not of the protocol's own link type
  returns a nil error and leaves the whole protocol state as it was.
\<close>

theorem DisconnectLink_foreign_link_noop:
  "DisconnectLink p (ForeignLink k) = (None, p)"
  by (simp add: DisconnectLink_def)

text \<open>
  Claim C10. \<^verbatim>\<open>ConnectSatellite\<close> and \<^verbatim>\<open>DisconnectSatellite\<close> return an error for every
  protocol state and every node, and leave the whole protocol state as it was.
\<close>

theorem ConnectSatellite_DisconnectSatellite_not_implemented:
  "ConnectSatellite p s = (Some (ErrorsNew ''ConnectSatellite not implemented''), p)
   \<and> DisconnectSatellite p s = (Some (ErrorsNew ''DisconnectSatellite not implemented''), p)"
  by (simp add: ConnectSatellite_def DisconnectSatellite_def)

subsection \<open>UpdateLinks before mounting and on a cache hit\<close>

text \<open>
  Claim C7. On a protocol that has no satellite mounted, \<^verbatim>\<open>UpdateLinks\<close> returns the
  error "satellite not mounted" and changes neither the protocol state nor the
  established flag of any link.
\<close>

theorem UpdateLinks_not_mounted:
  assumes "satellite p = None"
  shows "UpdateLinks w fl p = (Inl (ErrorsNew ''satellite not mounted''), fl, p)"
  using assms by (simp add: UpdateLinks_def)

theorem UpdateLinks_not_mounted_witness:
  "satellite NewIslSatelliteCentricMstProtocol = None
   \<and> UpdateLinks relay_world (\<lambda>l. False) NewIslSatelliteCentricMstProtocol
       = (Inl (ErrorsNew ''satellite not mounted''), (\<lambda>l. False),
          NewIslSatelliteCentricMstProtocol)"
proof -
  have h: "satellite NewIslSatelliteCentricMstProtocol = None"
    by (simp add: NewIslSatelliteCentricMstProtocol_def)
  from UpdateLinks_not_mounted [OF h] h show ?thesis by simp
qed

lemma UpdateLinks_hit:
  assumes "satellite p = Some sat" and "Equals (position p) (PositionVector w sat)"
  shows "UpdateLinks w fl p = (Inr (map IslLink (established p)), fl, p\<lparr>readyCh := False\<rparr>)"
  using assms by (simp add: UpdateLinks_def)

lemma UpdateLinks_hit_result:
  assumes "UpdateLinks w fl p = (Inr r, fl1, p1)"
    and "satellite p = Some sat"
    and "Equals (position p) (PositionVector w sat)"
  shows "r = map IslLink (established p)" "p1 = p\<lparr>readyCh := False\<rparr>" "fl1 = fl"
proof -
  have "UpdateLinks w fl p = (Inr (map IslLink (established p)), fl, p\<lparr>readyCh := False\<rparr>)"
    using assms(2,3) by (rule UpdateLinks_hit)
  with assms(1) [symmetric]
  have "(Inr r :: error + ilink list, fl1, p1)
      = (Inr (map IslLink (established p)), fl, p\<lparr>readyCh := False\<rparr>)"
    by (rule HOL.trans)
  then show "r = map IslLink (established p)" "p1 = p\<lparr>readyCh := False\<rparr>" "fl1 = fl"
    by (simp_all only: prod.inject sum.inject)
qed

lemma UpdateLinks_miss_result:
  assumes "UpdateLinks w fl p = (Inr r, fl1, p1)"
    and "satellite p = Some sat"
    and "\<not> Equals (position p) (PositionVector w sat)"
  shows "satellite p1 = Some sat" "Equals (position p1) (PositionVector w sat)"
    "r = map IslLink (established p1)"
proof -
  have "satellite p1 = Some sat \<and> Equals (position p1) (PositionVector w sat)
      \<and> r = map IslLink (established p1)"
  proof (rule UpdateLinks_miss [OF assms(2,3,1)])
    fix mst vis q
    assume r: "r = map IslLink mst"
      and p1: "p1 = (prepare w sat p)\<lparr>visited := vis, pq := q, established := mst,
                      readyCh := True\<rparr>"
    show ?thesis using assms(2) by (simp add: p1 r prepare_fields Equals_def)
  qed
  then show "satellite p1 = Some sat" "Equals (position p1) (PositionVector w sat)"
    "r = map IslLink (established p1)"
    by simp_all
qed

text \<open>
  Claim C5. When a call of \<^verbatim>\<open>UpdateLinks\<close> on a mounted protocol has returned a result
  and the position of the owning satellite is the same at the next call (whatever else
  has changed around the protocol), the next call returns the same links and recomputes
  nothing: it leaves the established flags and every field of the protocol as the first
  call left them (established links, visited set, queue and cached position among them),
  except that a pending readiness signal is taken from the channel.
\<close>

theorem UpdateLinks_cache_hit_idempotent:
  assumes "satellite p = Some sat"
    and "UpdateLinks w fl p = (Inr r, fl1, p1)"
    and "PositionVector w' sat = PositionVector w sat"
  shows "UpdateLinks w' fl2 p1 = (Inr r, fl2, p1\<lparr>readyCh := False\<rparr>)"
proof (cases "Equals (position p) (PositionVector w sat)")
  case True
  note h = UpdateLinks_hit_result [OF assms(2,1) True]
  have s1: "satellite p1 = Some sat" using assms(1) by (simp add: h(2))
  have q1: "Equals (position p1) (PositionVector w' sat)"
    using True by (simp add: h(2) assms(3))
  have e1: "established p1 = established p" by (simp add: h(2))
  show ?thesis
    unfolding UpdateLinks_hit [OF s1 q1] e1 h(1) ..
next
  case False
  note m = UpdateLinks_miss_result [OF assms(2,1) False]
  have q1: "Equals (position p1) (PositionVector w' sat)"
    using m(2) by (simp add: assms(3))
  show ?thesis
    unfolding UpdateLinks_hit [OF m(1) q1] m(3) ..
qed

theorem UpdateLinks_cache_hit_idempotent_witness:
  "satellite relay_protocol = Some 0
   \<and> fst (UpdateLinks relay_world (\<lambda>l. False) relay_protocol) = Inr [IslLink 0, IslLink 2]
   \<and> UpdateLinks (relay_world\<lparr>MaxISLDistance := 1\<rparr>) (\<lambda>l. True)
        (snd (snd (UpdateLinks relay_world (\<lambda>l. False) relay_protocol)))
     = (Inr [IslLink 0, IslLink 2], (\<lambda>l. True),
        (snd (snd (UpdateLinks relay_world (\<lambda>l. False) relay_protocol)))\<lparr>readyCh := False\<rparr>)"
proof -
  let ?U = "UpdateLinks relay_world (\<lambda>l. False) relay_protocol"
  have f: "fst ?U = Inr [IslLink 0, IslLink 2]"
    by (rule relay_run)
  then have h: "?U = (Inr [IslLink 0, IslLink 2], fst (snd ?U), snd (snd ?U))"
    by (rule result_triple)
  have same: "PositionVector (relay_world\<lparr>MaxISLDistance := 1\<rparr>) 0 = PositionVector relay_world 0"
    by simp
  from relay_miss(1) f UpdateLinks_cache_hit_idempotent [OF relay_miss(1) h same]
  show ?thesis by (intro conjI)
qed

subsection \<open>Invariants of the loop\<close>

lemma known_link_mono: "known_link w ls sat vis l \<Longrightarrow> known_link w ls sat (insert s vis) l"
  by (auto simp: known_link_def)

lemma links_known_start: "links_known w ls sat ([], {sat}, seed_queue w ls [])"
  by (auto simp: links_known_def known_link_def set_seed_queue)

lemma links_known_Continue:
  assumes "links_known w ls sat st" and "mst_step w n st = Continue st'"
  shows "links_known w ls sat st'"
proof -
  obtain mst vis q where st: "st = (mst, vis, q)" by (cases st) auto
  obtain mst' vis' q' where st': "st' = (mst', vis', q')" by (cases st') auto
  from assms(1) have sat: "sat \<in> vis"
    and known: "\<And>l. l \<in> set mst \<union> fst ` set q \<Longrightarrow> known_link w ls sat vis l"
    by (auto simp: links_known_def st)
  from assms(2) have "mst_step w n (mst, vis, q) = Continue (mst', vis', q')"
    by (simp add: st st')
  then show ?thesis
  proof (cases rule: mst_step_Continue_cases)
    case (discard link d)
    with sat known show ?thesis by (auto simp: links_known_def st')
  next
    case (extend link d newSat t)
    from extend(1) have link: "link \<in> fst ` set q" by (metis fst_conv image_eqI list.set_intros(1))
    from extend(1) have tl: "set (tl q) \<subseteq> set q" by (metis list.sel(3) set_subset_Cons)
    from extend(4) sat have ne: "newSat \<noteq> sat" by auto
    have new: "known_link w ls sat vis' l" if "IslLink l \<in> set t" for l
      using that extend(3,5) ne by (auto simp: known_link_def)
    have old: "known_link w ls sat vis' l" if "l \<in> set mst \<union> fst ` set q" for l
      using known [OF that] unfolding extend(3) by (rule known_link_mono)
    have "known_link w ls sat vis' l" if "l \<in> fst ` set q'" for l
    proof -
      from that obtain d' where "(l, d') \<in> set q'" by auto
      with set_enqueue_frontier [of w vis t "tl q"] extend(6)
      have "(l, d') \<in> set (tl q) \<or> IslLink l \<in> set t" by auto
      with tl have "l \<in> fst ` set q \<or> IslLink l \<in> set t" by force
      with old new show ?thesis by auto
    qed
    moreover have "known_link w ls sat vis' l" if "l \<in> set mst'" for l
      using that link old unfolding extend(2) by auto
    moreover have "sat \<in> vis'" using sat extend(3) by simp
    ultimately show ?thesis by (auto simp: links_known_def st')
  qed
qed

lemma links_known_Fault:
  assumes "links_known w ls sat st" and "mst_step w n st = Fault e st'"
  shows "links_known w ls sat st'"
proof -
  obtain mst vis q where st: "st = (mst, vis, q)" by (cases st) auto
  from assms(2) have st': "st' = (mst, vis, tl q)" and ne: "q \<noteq> []"
    using mst_step_Fault_cases [of w n mst vis q e st'] by (simp_all add: st)
  from ne have "set (tl q) \<subseteq> set q" by (cases q) auto
  with assms(1) show ?thesis by (auto simp: links_known_def st st')
qed

lemma links_in_range_start: "links_in_range w ([], vis, seed_queue w ls [])"
  by (auto simp: links_in_range_def set_seed_queue)

lemma links_in_range_Continue:
  assumes "links_in_range w st" and "mst_step w n st = Continue st'"
  shows "links_in_range w st'"
proof -
  obtain mst vis q where st: "st = (mst, vis, q)" by (cases st) auto
  obtain mst' vis' q' where st': "st' = (mst', vis', q')" by (cases st') auto
  from assms(1) have near: "\<And>l. l \<in> set mst \<union> fst ` set q \<Longrightarrow> Distance w l \<le> MaxISLDistance w"
    by (auto simp: links_in_range_def st)
  from assms(2) have "mst_step w n (mst, vis, q) = Continue (mst', vis', q')"
    by (simp add: st st')
  then show ?thesis
  proof (cases rule: mst_step_Continue_cases)
    case (discard link d)
    with near show ?thesis by (auto simp: links_in_range_def st')
  next
    case (extend link d newSat t)
    from extend(1) have link: "link \<in> fst ` set q" by (metis fst_conv image_eqI list.set_intros(1))
    from extend(1) have tl: "set (tl q) \<subseteq> set q" by (metis list.sel(3) set_subset_Cons)
    have "Distance w l \<le> MaxISLDistance w" if "l \<in> fst ` set q'" for l
    proof -
      from that obtain d' where "(l, d') \<in> set q'" by auto
      with set_enqueue_frontier [of w vis t "tl q"] extend(6)
      have "(l, d') \<in> set (tl q) \<or> Distance w l \<le> MaxISLDistance w" by auto
      with tl have "l \<in> fst ` set q \<or> Distance w l \<le> MaxISLDistance w" by force
      with near show ?thesis by auto
    qed
    moreover have "Distance w l \<le> MaxISLDistance w" if "l \<in> set mst'" for l
      using that link near unfolding extend(2) by auto
    ultimately show ?thesis by (auto simp: links_in_range_def st')
  qed
qed

lemma links_in_range_Fault:
  assumes "links_in_range w st" and "mst_step w n st = Fault e st'"
  shows "links_in_range w st'"
proof -
  obtain mst vis q where st: "st = (mst, vis, q)" by (cases st) auto
  from assms(2) have st': "st' = (mst, vis, tl q)" and ne: "q \<noteq> []"
    using mst_step_Fault_cases [of w n mst vis q e st'] by (simp_all add: st)
  from ne have "set (tl q) \<subseteq> set q" by (cases q) auto
  with assms(1) show ?thesis by (auto simp: links_in_range_def st st')
qed


lemma relay_state:
  "links (snd (snd (UpdateLinks relay_world fl relay_protocol))) = [0, 1]"
  "visited (snd (snd (UpdateLinks relay_world fl relay_protocol))) = {0, 1, 2}"
  by (simp_all add: run_defs relay_world_def relay_protocol_def insert_commute)

lemma relay_connected_run:
  "fst (UpdateLinks relay_world fl relay_connected) = Inr [IslLink 0, IslLink 2]"
  "established (snd (snd (UpdateLinks relay_world fl relay_connected))) = [0, 2]"
  "satellite relay_connected = Some 0"
  "\<not> Equals (position relay_connected) (PositionVector relay_world 0)"
  "established relay_connected = [1]"
  by (simp_all add: run_defs relay_world_def relay_protocol_def relay_connected_def)

subsection \<open>Recomputation\<close>

text \<open>
  Claim C8. After a call of \<^verbatim>\<open>UpdateLinks\<close> that misses the cache and returns a result,
  every link of the new tree has its established flag set, and every link that was
  established before the call and is not in the new tree has its flag cleared.
\<close>

theorem UpdateLinks_reconciles_flags:
  assumes "satellite p = Some sat"
    and "\<not> Equals (position p) (PositionVector w sat)"
    and "UpdateLinks w fl p = (Inr r, fl', p')"
  shows "(\<forall>l \<in> set (established p'). fl' l)
       \<and> (\<forall>l \<in> set (established p) - set (established p'). \<not> fl' l)"
proof (rule UpdateLinks_miss [OF assms])
  fix mst vis q
  assume fl': "fl' = clear_dropped (established p) (set mst) (\<lambda>l. l \<in> set mst \<or> fl l)"
    and p': "p' = (prepare w sat p)\<lparr>visited := vis, pq := q, established := mst, readyCh := True\<rparr>"
  have e: "established p' = mst" by (simp add: p')
  show ?thesis unfolding e fl' clear_dropped_eq by simp
qed

theorem UpdateLinks_reconciles_flags_witness:
  "established relay_connected = [1]
   \<and> established (snd (snd (UpdateLinks relay_world (\<lambda>l. l = 1) relay_connected))) = [0, 2]
   \<and> fst (snd (UpdateLinks relay_world (\<lambda>l. l = 1) relay_connected)) 0
   \<and> fst (snd (UpdateLinks relay_world (\<lambda>l. l = 1) relay_connected)) 2
   \<and> \<not> fst (snd (UpdateLinks relay_world (\<lambda>l. l = 1) relay_connected)) 1"
proof -
  let ?U = "UpdateLinks relay_world (\<lambda>l. l = 1) relay_connected"
  have h: "?U = (Inr [IslLink 0, IslLink 2], fst (snd ?U), snd (snd ?U))"
    by (rule result_triple) (rule relay_connected_run)
  from UpdateLinks_reconciles_flags [OF relay_connected_run(3,4) h]
  show ?thesis by (simp add: relay_connected_run(2,5))
qed

text \<open>
  Claim C3, as amended. After a call of \<^verbatim>\<open>UpdateLinks\<close> that misses the cache and returns
  a result, every established link is a candidate link of the protocol itself or is in
  the list that \<^verbatim>\<open>Links()\<close> of the protocol of a satellite visited in this recomputation,
  other than the owner, returns: the loop takes the links of each newly reached satellite
  from that satellite's own protocol.
\<close>

theorem UpdateLinks_established_known:
  assumes "satellite p = Some sat"
    and "\<not> Equals (position p) (PositionVector w sat)"
    and "UpdateLinks w fl p = (Inr r, fl', p')"
    and "l \<in> set (established p')"
  shows "l \<in> set (links p')
       \<or> (\<exists>s \<in> visited p' - {sat}. \<exists>t. ISLProtocol w s = OtherProtocol t \<and> IslLink l \<in> set t)"
proof (rule UpdateLinks_miss [OF assms(1-3)])
  fix mst vis q
  assume run: "mst_loop w (length (satellites (prepare w sat p)))
                 ([], {sat}, seed_queue w (links p) []) = (None, mst, vis, q)"
    and p': "p' = (prepare w sat p)\<lparr>visited := vis, pq := q, established := mst, readyCh := True\<rparr>"
  have "links_known w (links p) sat (mst, vis, q)"
    using run links_known_start
  proof (rule mst_loop_invariant)
    show "links_known w (links p) sat s'"
      if "links_known w (links p) sat s"
        and "mst_step w (length (satellites (prepare w sat p))) s = Continue s'" for s s'
      using that by (rule links_known_Continue)
    show "links_known w (links p) sat s'"
      if "links_known w (links p) sat s"
        and "mst_step w (length (satellites (prepare w sat p))) s = Fault x s'" for s x s'
      using that by (rule links_known_Fault)
  qed
  moreover have "established p' = mst" "visited p' = vis" "links p' = links p"
    by (simp_all add: p' prepare_fields)
  ultimately show ?thesis
    using assms(4) by (auto simp: links_known_def known_link_def)
qed

theorem UpdateLinks_established_known_witness:
  "2 \<in> set (established (snd (snd (UpdateLinks relay_world (\<lambda>l. False) relay_protocol))))
   \<and> (2 \<in> set (links (snd (snd (UpdateLinks relay_world (\<lambda>l. False) relay_protocol))))
      \<or> (\<exists>s \<in> visited (snd (snd (UpdateLinks relay_world (\<lambda>l. False) relay_protocol))) - {0}.
           \<exists>t. ISLProtocol relay_world s = OtherProtocol t \<and> IslLink 2 \<in> set t))"
proof -
  let ?U = "UpdateLinks relay_world (\<lambda>l. False) relay_protocol"
  have h: "?U = (Inr [IslLink 0, IslLink 2], fst (snd ?U), snd (snd ?U))"
    by (rule result_triple) (rule relay_run)
  have m: "2 \<in> set (established (snd (snd ?U)))" by (simp add: relay_run(2))
  from m UpdateLinks_established_known [OF relay_miss(1,2) h m]
  show ?thesis by (rule conjI)
qed

text \<open>
  Claim C3 as stated fails: the protocol of A holds A-B and A-C, A-C is out of range,
  and the tree is A-B, B-C, where B-C comes from the protocol of B and is no candidate
  of the protocol of A.
\<close>

theorem established_subset_links_counterexample:
  "satellite relay_protocol = Some 0
   \<and> \<not> Equals (position relay_protocol) (PositionVector relay_world 0)
   \<and> fst (UpdateLinks relay_world (\<lambda>l. False) relay_protocol) = Inr [IslLink 0, IslLink 2]
   \<and> \<not> set (established (snd (snd (UpdateLinks relay_world (\<lambda>l. False) relay_protocol))))
        \<subseteq> set (links (snd (snd (UpdateLinks relay_world (\<lambda>l. False) relay_protocol))))"
  by (simp add: relay_run relay_miss relay_state)

text \<open>
  Claim C4. In a call of \<^verbatim>\<open>UpdateLinks\<close> that misses the cache, a link whose distance is
  greater than the maximum is in the queue in no state of the loop (so it is never
  enqueued, neither when the queue is seeded nor when a frontier is added), is not in the
  queue the call leaves, and is not in the tree or the established links the call returns.
\<close>

theorem UpdateLinks_distance_filter:
  assumes "satellite p = Some sat"
    and "\<not> Equals (position p) (PositionVector w sat)"
    and "MaxISLDistance w < Distance w l"
  shows "(\<forall>mst vis q.
            loop_reaches w (length (satellites (prepare w sat p)))
              ([], visited (prepare w sat p), pq (prepare w sat p)) (mst, vis, q)
            \<longrightarrow> l \<notin> fst ` set q \<and> l \<notin> set mst)
       \<and> (\<forall>r fl' p'. UpdateLinks w fl p = (r, fl', p')
            \<longrightarrow> l \<notin> fst ` set (pq p')
                \<and> (\<forall>ls. r = Inr ls \<longrightarrow> IslLink l \<notin> set ls \<and> l \<notin> set (established p')))"
proof (intro conjI allI impI)
  let ?n = "length (satellites (prepare w sat p))"
  have far: "l \<notin> set mst \<union> fst ` set q" if "links_in_range w (mst, vis, q)" for mst vis q
  proof
    assume mem: "l \<in> set mst \<union> fst ` set q"
    from that have "\<forall>x \<in> set mst \<union> fst ` set q. Distance w x \<le> MaxISLDistance w"
      by (simp add: links_in_range_def)
    from this mem have "Distance w l \<le> MaxISLDistance w" by (rule bspec)
    with assms(3) show False by simp
  qed
  {
    fix mst vis q
    assume "loop_reaches w ?n ([], visited (prepare w sat p), pq (prepare w sat p)) (mst, vis, q)"
    then have reach: "loop_reaches w ?n ([], {sat}, seed_queue w (links p) []) (mst, vis, q)"
      by (simp only: prepare_fields)
    have "links_in_range w (mst, vis, q)"
      using reach links_in_range_start
    proof (rule loop_reaches_invariant)
      show "links_in_range w s'"
        if "links_in_range w s" and "mst_step w ?n s = Continue s'" for s s'
        using that by (rule links_in_range_Continue)
    qed
    from far [OF this] show "l \<notin> fst ` set q" and "l \<notin> set mst" by auto
  }
  fix r fl' p'
  assume call: "UpdateLinks w fl p = (r, fl', p')"
  have "\<exists>e mst vis q. mst_loop w ?n ([], {sat}, seed_queue w (links p) []) = (e, mst, vis, q)
      \<and> pq p' = q"
  proof (rule UpdateLinks_miss_any [OF assms(1,2) call])
    fix e mst vis q
    assume "mst_loop w ?n ([], {sat}, seed_queue w (links p) []) = (e, mst, vis, q)"
      and "pq p' = q"
    then show ?thesis by (intro exI conjI)
  qed
  then obtain e mst vis q where
    run: "mst_loop w ?n ([], {sat}, seed_queue w (links p) []) = (e, mst, vis, q)"
    and q: "pq p' = q"
    by (elim exE conjE)
  have inv: "links_in_range w (mst, vis, q)"
    using run links_in_range_start
  proof (rule mst_loop_invariant)
    show "links_in_range w s'"
      if "links_in_range w s" and "mst_step w ?n s = Continue s'" for s s'
      using that by (rule links_in_range_Continue)
    show "links_in_range w s'"
      if "links_in_range w s" and "mst_step w ?n s = Fault x s'" for s x s'
      using that by (rule links_in_range_Fault)
  qed
  from far [OF inv] show "l \<notin> fst ` set (pq p')" by (simp add: q)
  fix ls
  assume "r = Inr ls"
  with call have call': "UpdateLinks w fl p = (Inr ls, fl', p')" by simp
  have "IslLink l \<notin> set ls \<and> l \<notin> set (established p')"
  proof (rule UpdateLinks_miss [OF assms(1,2) call'])
    fix mst' vis' q'
    assume run': "mst_loop w ?n ([], {sat}, seed_queue w (links p) []) = (None, mst', vis', q')"
      and ls: "ls = map IslLink mst'"
      and p': "p' = (prepare w sat p)\<lparr>visited := vis', pq := q', established := mst',
                      readyCh := True\<rparr>"
    from run run' have "mst' = mst" by simp
    with far [OF inv] have "l \<notin> set mst'" by simp
    then show ?thesis by (auto simp: ls p')
  qed
  then show "IslLink l \<notin> set ls" and "l \<notin> set (established p')" by simp_all
qed

theorem UpdateLinks_distance_filter_witness:
  "MaxISLDistance relay_world < Distance relay_world 1
   \<and> 1 \<in> set (links relay_protocol)
   \<and> 1 \<notin> fst ` set (pq (prepare relay_world 0 relay_protocol))
   \<and> 1 \<notin> fst ` set (pq (snd (snd (UpdateLinks relay_world (\<lambda>l. False) relay_protocol))))
   \<and> IslLink 1 \<notin> set [IslLink 0, IslLink 2]
   \<and> 1 \<notin> set (established (snd (snd (UpdateLinks relay_world (\<lambda>l. False) relay_protocol))))"
proof -
  let ?U = "UpdateLinks relay_world (\<lambda>l. False) relay_protocol"
  let ?p0 = "prepare relay_world 0 relay_protocol"
  have h: "?U = (Inr [IslLink 0, IslLink 2], fst (snd ?U), snd (snd ?U))"
    by (rule result_triple) (rule relay_run)
  have far: "MaxISLDistance relay_world < Distance relay_world 1"
    by (simp add: relay_world_def)
  have cand: "1 \<in> set (links relay_protocol)" by (simp add: relay_miss(3))
  have start: "loop_reaches relay_world (length (satellites ?p0)) ([], visited ?p0, pq ?p0)
      ([], visited ?p0, pq ?p0)"
    by (rule loop_reaches.start)
  note filt = UpdateLinks_distance_filter [OF relay_miss(1,2) far, of "\<lambda>l. False"]
  from filt start have a: "1 \<notin> fst ` set (pq ?p0)" by blast
  from filt h have b: "1 \<notin> fst ` set (pq (snd (snd ?U)))
      \<and> IslLink 1 \<notin> set [IslLink 0, IslLink 2] \<and> 1 \<notin> set (established (snd (snd ?U)))"
    by blast
  from far cand a b show ?thesis by blast
qed

subsection \<open>The tree in the example of the specification\<close>

text \<open>
  A pass that goes on keeps the visited satellites, and the link it adds, if any, has
  an endpoint that was not visited.
\<close>

lemma mst_step_Continue_grows:
  assumes "mst_step w n (mst, vis, q) = Continue (mst', vis', q')"
  shows "vis \<subseteq> vis'"
    and "set mst' \<subseteq> set mst \<union> {l. \<not> (is_visited vis (as_satellite (Node1 w l))
                                       \<and> is_visited vis (as_satellite (Node2 w l)))}"
  using assms
  by (cases q;
      auto simp: Dequeue_def Len_def Let_def
           split: if_splits option.splits proto_ref.splits)+

text \<open>
  In the example, whatever the protocols of B and C report: the first link taken from
  the queue is B-C, although neither B nor C is visited, and B is marked visited. From
  then on A-B joins two visited satellites and is discarded.
\<close>

lemma AB_closed_Continue:
  assumes "AB_closed st" and "mst_step (scenario_world\<lparr>ISLProtocol := f\<rparr>) n st = Continue st'"
  shows "AB_closed st'"
proof -
  obtain mst vis q where st: "st = (mst, vis, q)" by (cases st) auto
  obtain mst' vis' q' where st': "st' = (mst', vis', q')" by (cases st') auto
  from assms(2) have step:
    "mst_step (scenario_world\<lparr>ISLProtocol := f\<rparr>) n (mst, vis, q) = Continue (mst', vis', q')"
    by (simp add: st st')
  from assms(1) have v: "0 \<in> vis" "1 \<in> vis" and m: "0 \<notin> set mst"
    by (simp_all add: AB_closed_def st)
  from v have "is_visited vis (as_satellite (Node1 (scenario_world\<lparr>ISLProtocol := f\<rparr>) 0))
      \<and> is_visited vis (as_satellite (Node2 (scenario_world\<lparr>ISLProtocol := f\<rparr>) 0))"
    by (simp add: is_visited_def as_satellite_def scenario_world_def)
  with mst_step_Continue_grows(2) [OF step] m have "0 \<notin> set mst'" by auto
  moreover from mst_step_Continue_grows(1) [OF step] v have "0 \<in> vis'" "1 \<in> vis'" by auto
  ultimately show ?thesis by (simp add: AB_closed_def st')
qed

lemma AB_closed_Fault:
  assumes "AB_closed st" and "mst_step w n st = Fault e st'"
  shows "AB_closed st'"
proof -
  obtain mst vis q where st: "st = (mst, vis, q)" by (cases st) auto
  from assms(2) have "st' = (mst, vis, tl q)"
    using mst_step_Fault_cases [of w n mst vis q e st'] by (simp add: st)
  with assms(1) show ?thesis by (simp add: AB_closed_def st)
qed

lemma scenario_first_pass:
  "mst_step (scenario_world\<lparr>ISLProtocol := f\<rparr>) 3 ([], {0}, [(2, 5), (0, 10), (1, 50)])
     = (case f 1 of
          NilProtocol \<Rightarrow> Fault NilDereference ([], {0}, [(0, 10), (1, 50)])
        | ThisProtocol \<Rightarrow> Fault Deadlock ([], {0}, [(0, 10), (1, 50)])
        | OtherProtocol t \<Rightarrow>
            Continue ([2], {1, 0},
              enqueue_frontier (scenario_world\<lparr>ISLProtocol := f\<rparr>) {0} t [(0, 10), (1, 50)]))"
  by (simp add: Dequeue_def Len_def as_satellite_def is_visited_def scenario_world_def
           split: proto_ref.splits)

lemma scenario_prepare:
  "satellite scenario_protocol = Some 0"
  "\<not> Equals (position scenario_protocol) (PositionVector (scenario_world\<lparr>ISLProtocol := f\<rparr>) 0)"
  "length (satellites (prepare (scenario_world\<lparr>ISLProtocol := f\<rparr>) 0 scenario_protocol)) = 3"
  "seed_queue (scenario_world\<lparr>ISLProtocol := f\<rparr>) (links scenario_protocol) []
     = [(2, 5), (0, 10), (1, 50)]"
  by (simp_all add: prepare_def NewIslSatelliteCentricMstProtocol_def Mount_def AddLink_def
        Equals_def map_insert_def Clear_def Let_def scenario_world_def scenario_protocol_def)

lemma scenario_loop_unfold:
  "mst_loop (scenario_world\<lparr>ISLProtocol := f\<rparr>) 3 ([], {0}, [(2, 5), (0, 10), (1, 50)])
     = (case f 1 of
          NilProtocol \<Rightarrow> (Some NilDereference, [], {0}, [(0, 10), (1, 50)])
        | ThisProtocol \<Rightarrow> (Some Deadlock, [], {0}, [(0, 10), (1, 50)])
        | OtherProtocol t \<Rightarrow>
            mst_loop (scenario_world\<lparr>ISLProtocol := f\<rparr>) 3
              ([2], {1, 0},
               enqueue_frontier (scenario_world\<lparr>ISLProtocol := f\<rparr>) {0} t [(0, 10), (1, 50)]))"
  by (subst mst_loop.simps) (simp only: scenario_first_pass split: proto_ref.splits, simp)

lemma scenario_never_returns_AB:
  assumes "UpdateLinks (scenario_world\<lparr>ISLProtocol := f\<rparr>) fl scenario_protocol = (Inr r, fl', p')"
  shows "IslLink 0 \<notin> set r"
proof (rule UpdateLinks_miss [OF scenario_prepare(1,2) assms])
  let ?w = "scenario_world\<lparr>ISLProtocol := f\<rparr>"
  fix mst vis q
  assume "mst_loop ?w (length (satellites (prepare ?w 0 scenario_protocol)))
            ([], {0}, seed_queue ?w (links scenario_protocol) []) = (None, mst, vis, q)"
    and r: "r = map IslLink mst"
  then have "mst_loop ?w 3 ([], {0}, [(2, 5), (0, 10), (1, 50)]) = (None, mst, vis, q)"
    by (simp only: scenario_prepare)
  then have run: "(case f 1 of
          NilProtocol \<Rightarrow> (Some NilDereference, [], {0}, [(0, 10), (1, 50)])
        | ThisProtocol \<Rightarrow> (Some Deadlock, [], {0}, [(0, 10), (1, 50)])
        | OtherProtocol t \<Rightarrow>
            mst_loop ?w 3 ([2], {1, 0}, enqueue_frontier ?w {0} t [(0, 10), (1, 50)]))
      = (None, mst, vis, q)"
    by (simp only: scenario_loop_unfold)
  show ?thesis
  proof (cases "f 1")
    case NilProtocol
    with run show ?thesis by simp
  next
    case ThisProtocol
    with run show ?thesis by simp
  next
    case (OtherProtocol t)
    let ?st1 = "([2], {1, 0}, enqueue_frontier ?w {0} t [(0, 10), (1, 50)])"
    from run OtherProtocol have run1: "mst_loop ?w 3 ?st1 = (None, mst, vis, q)"
      by simp
    have start: "AB_closed ?st1" by (simp add: AB_closed_def)
    have "AB_closed (mst, vis, q)"
      using run1 start
    proof (rule mst_loop_invariant)
      show "AB_closed s'" if "AB_closed s" and "mst_step ?w 3 s = Continue s'" for s s'
        using that by (rule AB_closed_Continue)
      show "AB_closed s'" if "AB_closed s" and "mst_step ?w 3 s = Fault x s'" for s x s'
        using that by (rule AB_closed_Fault)
    qed
    then show ?thesis by (auto simp: AB_closed_def r)
  qed
qed

text \<open>
  Claim C1. The claim: in the example (owner A, candidates A-B of distance 10, A-C of
  distance 50, B-C of distance 5, range 100, cached position not the current one)
  \<^verbatim>\<open>UpdateLinks\<close> returns exactly A-B and B-C. The code returns B-C twice: the queue is
  seeded with all three candidates, B-C is taken first and accepted with B as the new
  satellite, the protocol of B puts B-C into the queue again, and it is accepted again
  with C as the new satellite; A-B is not returned.
\<close>

theorem scenario_returns_BC_twice:
  "satellite scenario_protocol = Some 0
   \<and> links scenario_protocol = [0, 1, 2]
   \<and> \<not> Equals (position scenario_protocol) (PositionVector scenario_world 0)
   \<and> fst (UpdateLinks scenario_world (\<lambda>l. False) scenario_protocol)
       = Inr [IslLink 2, IslLink 2]"
  by (simp add: run_defs scenario_world_def scenario_protocol_def)

subsection \<open>A tree with a cycle\<close>

text \<open>
  Claim C2. The claim: after a recomputation the established links contain no cycle.
  With owner A and the candidates A-B (10), B-C (1), C-D (2), B-D (3), all within range
  and connected, the code establishes B-C, C-D and B-D, which form the cycle B, C, D, B,
  and leaves A without a link.
\<close>

theorem cycle_established:
  "satellite cycle_protocol = Some 0
   \<and> \<not> Equals (position cycle_protocol) (PositionVector cycle_world 0)
   \<and> fst (UpdateLinks cycle_world (\<lambda>l. False) cycle_protocol)
       = Inr [IslLink 1, IslLink 2, IslLink 3]
   \<and> established (snd (snd (UpdateLinks cycle_world (\<lambda>l. False) cycle_protocol))) = [1, 2, 3]
   \<and> is_cycle cycle_world [1, 2, 3]"
  by (simp add: run_defs cycle_world_def cycle_protocol_def is_cycle_def other_end_def)

end
